theory Spec2Isabelle
  imports Complex_Main "HOL-Library.Log_Nat"
begin

section \<open>Python values: exceptions and double-precision floats\<close>

text \<open>
  The approximator works on Python integers (unbounded, modelled as \<open>int\<close>) and
  Python floats (IEEE 754 binary64). A float is modelled by the rational number it
  denotes, or one of the three special values. The two zeros are identified: every
  operation the program applies (comparison, \<open>round\<close>, \<open>abs\<close>, \<open>-\<close>, \<open>*\<close>) treats
  them alike. Every exception the interpreter can raise in the modelled code is a value
  of \<open>py_error\<close>.
\<close>

datatype py_error = ZeroDivisionError | OverflowError | ValueError | IndexError

datatype pyfloat = Fin rat | PInf | NInf | NaN

text \<open>Round half to even, to an integer: what Python 3's \<open>round(x)\<close> computes.\<close>

definition rhe :: "rat \<Rightarrow> int" where
  "rhe x = (let f = \<lfloor>x\<rfloor>; d = x - of_int f in
      if d < 1 / 2 then f else if 1 / 2 < d then f + 1 else if even f then f else f + 1)"

text \<open>\<open>floor_log2 x\<close> is the binary exponent of a positive rational: \<open>2^k \<le> x < 2^(k+1)\<close>.\<close>

definition floor_log2 :: "rat \<Rightarrow> int" where
  "floor_log2 x = (if 1 \<le> x then bitlen \<lfloor>x\<rfloor> - 1 else - bitlen (\<lceil>1 / x\<rceil> - 1))"

text \<open>
  Rounding a rational to the binary64 grid, to nearest, ties to even, with unbounded
  exponent above: 53 significant bits, and spacing \<open>2^-1074\<close> in the subnormal range.
  \<open>grid_exp x\<close> is the exponent of the spacing of the grid around \<open>x\<close>.
\<close>

definition grid_exp :: "rat \<Rightarrow> int" where
  "grid_exp x = max (floor_log2 \<bar>x\<bar> - 52) (- 1074)"

definition round_to_grid :: "rat \<Rightarrow> rat" where
  "round_to_grid x = (if x = 0 then 0 else
     let e = grid_exp x in of_int (rhe (x / 2 powi e)) * 2 powi e)"

definition DBL_MAX :: rat where
  "DBL_MAX = (2 ^ 53 - 1) * 2 ^ 971"

text \<open>The correctly rounded float of an exact value; it overflows to an infinity.\<close>

definition to_float :: "rat \<Rightarrow> pyfloat" where
  "to_float x = (let r = round_to_grid x in
     if DBL_MAX < r then PInf else if r < - DBL_MAX then NInf else Fin r)"

text \<open>
  \<open>a / b\<close> on two Python integers: the correctly rounded quotient; it raises
  \<open>ZeroDivisionError\<close> on a zero divisor and \<open>OverflowError\<close> when the quotient is too
  large for a float.
\<close>

definition int_truediv :: "int \<Rightarrow> int \<Rightarrow> py_error + pyfloat" where
  "int_truediv a b =
     (if b = 0 then Inl ZeroDivisionError
      else case to_float (of_int a / of_int b) of
             Fin r \<Rightarrow> Inr (Fin r)
           | _ \<Rightarrow> Inl OverflowError)"

text \<open>The conversion of an integer operand in mixed arithmetic (\<open>target * den\<close>).\<close>

definition float_of_int :: "int \<Rightarrow> py_error + pyfloat" where
  "float_of_int n =
     (case to_float (of_int n) of
        Fin r \<Rightarrow> Inr (Fin r)
      | _ \<Rightarrow> Inl OverflowError)"

fun float_mul :: "pyfloat \<Rightarrow> pyfloat \<Rightarrow> pyfloat" where
  "float_mul (Fin x) (Fin y) = to_float (x * y)"
| "float_mul NaN _ = NaN"
| "float_mul _ NaN = NaN"
| "float_mul (Fin x) PInf = (if x = 0 then NaN else if 0 < x then PInf else NInf)"
| "float_mul (Fin x) NInf = (if x = 0 then NaN else if 0 < x then NInf else PInf)"
| "float_mul PInf (Fin y) = (if y = 0 then NaN else if 0 < y then PInf else NInf)"
| "float_mul NInf (Fin y) = (if y = 0 then NaN else if 0 < y then NInf else PInf)"
| "float_mul PInf PInf = PInf"
| "float_mul PInf NInf = NInf"
| "float_mul NInf PInf = NInf"
| "float_mul NInf NInf = PInf"

fun float_sub :: "pyfloat \<Rightarrow> pyfloat \<Rightarrow> pyfloat" where
  "float_sub (Fin x) (Fin y) = to_float (x - y)"
| "float_sub NaN _ = NaN"
| "float_sub _ NaN = NaN"
| "float_sub PInf PInf = NaN"
| "float_sub NInf NInf = NaN"
| "float_sub PInf _ = PInf"
| "float_sub NInf _ = NInf"
| "float_sub (Fin x) PInf = NInf"
| "float_sub (Fin x) NInf = PInf"

fun float_abs :: "pyfloat \<Rightarrow> pyfloat" where
  "float_abs (Fin x) = Fin \<bar>x\<bar>"
| "float_abs PInf = PInf"
| "float_abs NInf = PInf"
| "float_abs NaN = NaN"

text \<open>The comparison \<open>x < y\<close> of two floats; it is false whenever one is NaN.\<close>

fun float_lt :: "pyfloat \<Rightarrow> pyfloat \<Rightarrow> bool" where
  "float_lt (Fin x) (Fin y) = (x < y)"
| "float_lt NaN _ = False"
| "float_lt _ NaN = False"
| "float_lt NInf NInf = False"
| "float_lt NInf _ = True"
| "float_lt _ NInf = False"
| "float_lt PInf _ = False"
| "float_lt (Fin x) PInf = True"

text \<open>\<open>round(x)\<close> on a float, without digits: an integer, ties to even.\<close>

fun py_round :: "pyfloat \<Rightarrow> py_error + int" where
  "py_round (Fin x) = Inr (rhe x)"
| "py_round PInf = Inl OverflowError"
| "py_round NInf = Inl OverflowError"
| "py_round NaN = Inl ValueError"

section \<open>Configuration and candidates\<close>

record config =
  MAX_DENOMINATOR :: int
  SINGLE_DIGIT_THRESHOLD :: pyfloat

text \<open>The values the script ships with: 64 and the float literal \<open>0.01\<close>.\<close>

definition default_config :: config where
  "default_config = \<lparr>MAX_DENOMINATOR = 64, SINGLE_DIGIT_THRESHOLD = to_float (1 / 100)\<rparr>"

text \<open>A candidate is the tuple \<open>(num, den, err)\<close>.\<close>

type_synonym candidate = "int \<times> int \<times> pyfloat"

definition cand_num :: "candidate \<Rightarrow> int" where
  "cand_num c = fst c"

definition cand_den :: "candidate \<Rightarrow> int" where
  "cand_den c = fst (snd c)"

definition cand_err :: "candidate \<Rightarrow> pyfloat" where
  "cand_err c = snd (snd c)"

text \<open>
  \<open>list.sort(key=lambda x: x[2])\<close>: a stable sort that compares keys with \<open><\<close> only.
  On keys that \<open><\<close> orders totally, the result of any stable sort is the one of this
  insertion sort.
\<close>

fun insort_err :: "candidate \<Rightarrow> candidate list \<Rightarrow> candidate list" where
  "insort_err x [] = [x]"
| "insort_err x (y # ys) =
     (if float_lt (cand_err y) (cand_err x) then y # insort_err x ys else x # y # ys)"

definition sort_err :: "candidate list \<Rightarrow> candidate list" where
  "sort_err xs = foldr insort_err xs []"

section \<open>The core: \<open>approximate_top5\<close>\<close>

text \<open>
  The first component of the result is \<open>"limit_small"\<close>, \<open>"limit_large"\<close>, \<open>None\<close>, or
  the best single-digit tuple.
\<close>

datatype mode_value = MStr string | MNone | MTuple candidate

text \<open>
  The loop over \<open>range(1, MAX_DENOMINATOR + 1)\<close>, on the remaining denominators and the
  two lists built so far. Each \<open>continue\<close> goes on with the lists unchanged.
\<close>

fun collect :: "pyfloat \<Rightarrow> int list \<Rightarrow> candidate list \<times> candidate list
    \<Rightarrow> py_error + candidate list \<times> candidate list" where
  "collect target [] (candidates, single_digit_candidates) =
     Inr (candidates, single_digit_candidates)"
| "collect target (den # dens) (candidates, single_digit_candidates) =
     (case float_of_int den of
        Inl e \<Rightarrow> Inl e
      | Inr fden \<Rightarrow>
     (case py_round (float_mul target fden) of
        Inl e \<Rightarrow> Inl e
      | Inr num \<Rightarrow>
          if num = 0 then collect target dens (candidates, single_digit_candidates)
          else if gcd num den \<noteq> 1 then collect target dens (candidates, single_digit_candidates)
          else
            (case int_truediv num den of
               Inl e \<Rightarrow> Inl e
             | Inr q \<Rightarrow>
                 let err = float_abs (float_sub q target) in
                 collect target dens
                   (candidates @ [(num, den, err)],
                    if 1 \<le> num \<and> num \<le> 9 \<and> 1 \<le> den \<and> den \<le> 9
                    then single_digit_candidates @ [(num, den, err)]
                    else single_digit_candidates))))"

definition approximate_top5 :: "config \<Rightarrow> int \<Rightarrow> int \<Rightarrow> py_error + mode_value \<times> candidate list" where
  "approximate_top5 cfg a b =
     (case int_truediv a b of
        Inl e \<Rightarrow> Inl e
      | Inr target \<Rightarrow>
     (case collect target [1..MAX_DENOMINATOR cfg] ([], []) of
        Inl e \<Rightarrow> Inl e
      | Inr (candidates, single_digit_candidates) \<Rightarrow>
          if candidates = [] then
            if a < b then
              (case int_truediv b a of
                 Inl e \<Rightarrow> Inl e
               | Inr r \<Rightarrow>
              (case py_round r of
                 Inl e \<Rightarrow> Inl e
               | Inr k \<Rightarrow>
                   let extreme_den = max 1 k in
                   (case int_truediv 1 extreme_den of
                      Inl e \<Rightarrow> Inl e
                    | Inr q \<Rightarrow>
                        Inr (MStr ''limit_small'',
                             [(1, extreme_den, float_abs (float_sub q target))]))))
            else
              (case int_truediv a b of
                 Inl e \<Rightarrow> Inl e
               | Inr r \<Rightarrow>
              (case py_round r of
                 Inl e \<Rightarrow> Inl e
               | Inr k \<Rightarrow>
                   let extreme_num = max 1 k in
                   (case int_truediv extreme_num 1 of
                      Inl e \<Rightarrow> Inl e
                    | Inr q \<Rightarrow>
                        Inr (MStr ''limit_large'',
                             [(extreme_num, 1, float_abs (float_sub q target))]))))
          else
            let sorted_candidates = sort_err candidates in
            if single_digit_candidates = [] then Inr (MNone, take 5 sorted_candidates)
            else
              (case sort_err single_digit_candidates of
                 [] \<Rightarrow> Inl IndexError
               | best_single_digit # _ \<Rightarrow>
                   if float_lt (cand_err best_single_digit) (SINGLE_DIGIT_THRESHOLD cfg) then
                     let is_global_best =
                       (case sorted_candidates of
                          [] \<Rightarrow> False
                        | c0 # _ \<Rightarrow>
                            cand_num best_single_digit = cand_num c0 \<and>
                            cand_den best_single_digit = cand_den c0)
                     in if \<not> is_global_best
                        then Inr (MTuple best_single_digit, take 5 sorted_candidates)
                        else Inr (MNone, take 5 sorted_candidates)
                   else Inr (MNone, take 5 sorted_candidates))))"

section \<open>The two shells, after parsing\<close>

text \<open>
  What a shell shows for one query. \<open>Exact_ratio x y\<close> stands for the fixed lines of the
  short-circuit: the ratio \<open>x:y\<close>, the error text \<open>=0\<close> and the fixed message.
  \<open>Results mode top5\<close> stands for the regular rendering of the search result.
  \<open>Not_positive\<close> and \<open>Not_valid\<close> are the two input complaints, and \<open>Error_text e\<close>
  is the console's report of a caught exception.
\<close>

datatype screen =
    Exact_ratio int int
  | Results mode_value "candidate list"
  | Not_positive
  | Not_valid
  | Error_text py_error

text \<open>
  One round of \<open>run_cli_mode\<close> on two parsed integers. The search is called first; any
  exception is caught by the loop's \<open>except Exception\<close> and reported.
\<close>

definition run_cli_mode_body :: "config \<Rightarrow> int \<Rightarrow> int \<Rightarrow> screen" where
  "run_cli_mode_body cfg a b =
     (if a \<le> 0 \<or> b \<le> 0 then Not_positive
      else case approximate_top5 cfg a b of
             Inl e \<Rightarrow> Error_text e
           | Inr (mode, top5) \<Rightarrow>
               if (a = 1 \<and> MAX_DENOMINATOR cfg < b) \<or> (b = 1 \<and> MAX_DENOMINATOR cfg < a)
               then (if a = 1 then Exact_ratio 1 b else Exact_ratio a 1)
               else Results mode top5)"

text \<open>
  \<open>App.calc\<close> on two parsed integers. Only \<open>ValueError\<close> is caught; any other
  exception leaves the method.
\<close>

definition App_calc :: "config \<Rightarrow> int \<Rightarrow> int \<Rightarrow> py_error + screen" where
  "App_calc cfg a b =
     (if a \<le> 0 \<or> b \<le> 0 then Inr Not_positive
      else case approximate_top5 cfg a b of
             Inl ValueError \<Rightarrow> Inr Not_valid
           | Inl e \<Rightarrow> Inl e
           | Inr (mode, top5) \<Rightarrow>
               if (a = 1 \<and> MAX_DENOMINATOR cfg < b) \<or> (b = 1 \<and> MAX_DENOMINATOR cfg < a)
               then Inr (if a = 1 then Exact_ratio 1 b else Exact_ratio a 1)
               else Inr (Results mode top5))"

section \<open>Notions of the specification\<close>

text \<open>The four mode tags of the specification, and the tag a returned value stands for.\<close>

datatype mode_tag = Normal | Single_digit_preferred | Limit_small | Limit_large

definition tag_of :: "mode_value \<Rightarrow> mode_tag option" where
  "tag_of m =
     (case m of
        MNone \<Rightarrow> Some Normal
      | MTuple c \<Rightarrow> Some Single_digit_preferred
      | MStr s \<Rightarrow>
          if s = ''limit_small'' then Some Limit_small
          else if s = ''limit_large'' then Some Limit_large
          else None)"

text \<open>The single-digit bucket's membership test.\<close>

definition single_digit :: "candidate \<Rightarrow> bool" where
  "single_digit c = (1 \<le> cand_num c \<and> cand_num c \<le> 9 \<and> 1 \<le> cand_den c \<and> cand_den c \<le> 9)"

text \<open>\<open>generated target den c\<close>: the loop body records the candidate \<open>c\<close> at \<open>den\<close>.\<close>

definition generated :: "pyfloat \<Rightarrow> int \<Rightarrow> candidate \<Rightarrow> bool" where
  "generated target den c =
     (case float_of_int den of
        Inl e \<Rightarrow> False
      | Inr fden \<Rightarrow>
     (case py_round (float_mul target fden) of
        Inl e \<Rightarrow> False
      | Inr num \<Rightarrow>
          num \<noteq> 0 \<and> gcd num den = 1 \<and>
          (case int_truediv num den of
             Inl e \<Rightarrow> False
           | Inr q \<Rightarrow> c = (num, den, float_abs (float_sub q target)))))"

text \<open>
  The candidate invariant, without the bound on the denominator: positive numerator
  and denominator, a reduced fraction, and the error is the float
  \<open>abs(num / den - target)\<close>, finite and not negative.
\<close>

definition candidate_ok :: "pyfloat \<Rightarrow> candidate \<Rightarrow> bool" where
  "candidate_ok target c =
     (0 < cand_num c \<and> 0 < cand_den c \<and> gcd (cand_num c) (cand_den c) = 1 \<and>
      (case int_truediv (cand_num c) (cand_den c) of
         Inl e \<Rightarrow> False
       | Inr q \<Rightarrow> cand_err c = float_abs (float_sub q target)) \<and>
      (case cand_err c of Fin r \<Rightarrow> 0 \<le> r | _ \<Rightarrow> False))"

text \<open>
  The ranking of the specification: by error, and among equal errors by denominator.
\<close>

definition ranks_before :: "candidate \<Rightarrow> candidate \<Rightarrow> bool" where
  "ranks_before x y =
     (float_lt (cand_err x) (cand_err y) \<or>
      (cand_err x = cand_err y \<and> cand_den x < cand_den y))"

text \<open>\<open>is_best cs c\<close>: \<open>c\<close> is the candidate of \<open>cs\<close> that ranks before all others.\<close>

definition is_best :: "candidate list \<Rightarrow> candidate \<Rightarrow> bool" where
  "is_best cs c = (c \<in> set cs \<and> (\<forall>x\<in>set cs. x = c \<or> ranks_before c x))"

text \<open>
  \<open>is_top5 cs top5\<close>: \<open>top5\<close> lists, in ranking order, the first five candidates of
  \<open>cs\<close> (all of them when there are fewer), and every other candidate ranks after them.
\<close>

definition is_top5 :: "candidate list \<Rightarrow> candidate list \<Rightarrow> bool" where
  "is_top5 cs top5 =
     (length top5 = min 5 (length cs) \<and> set top5 \<subseteq> set cs \<and>
      sorted_wrt ranks_before top5 \<and>
      (\<forall>c\<in>set cs. c \<notin> set top5 \<longrightarrow> (\<forall>x\<in>set top5. ranks_before x c)))"

section \<open>Rounding\<close>

lemma rhe_of_int: "rhe (of_int n) = n"
  by (simp add: rhe_def)

lemma rhe_floor_cases: "rhe x = \<lfloor>x\<rfloor> \<or> rhe x = \<lfloor>x\<rfloor> + 1"
  by (simp add: rhe_def Let_def)

lemma rhe_mono:
  assumes "x \<le> y"
  shows "rhe x \<le> rhe y"
proof (cases "\<lfloor>x\<rfloor> = \<lfloor>y\<rfloor>")
  case True
  with assms show ?thesis
    by (auto simp: rhe_def Let_def)
next
  case False
  with assms have "\<lfloor>x\<rfloor> < \<lfloor>y\<rfloor>"
    by (simp add: floor_mono order.strict_iff_order)
  moreover have "rhe x \<le> \<lfloor>x\<rfloor> + 1" using rhe_floor_cases [of x] by auto
  moreover have "\<lfloor>y\<rfloor> \<le> rhe y" using rhe_floor_cases [of y] by auto
  ultimately show ?thesis by linarith
qed

lemma rhe_nonneg: "0 \<le> x \<Longrightarrow> 0 \<le> rhe x"
  using rhe_mono [of 0 x] rhe_of_int [of 0] by simp

lemma rhe_uminus: "rhe (- x) = - rhe x"
proof (cases "x = of_int \<lfloor>x\<rfloor>")
  case True
  then obtain n where "x = of_int n" ..
  then have "- x = of_int (- n)" by simp
  then show ?thesis unfolding \<open>x = of_int n\<close> by (metis rhe_of_int)
next
  case False
  then have fl: "\<lfloor>- x\<rfloor> = - \<lfloor>x\<rfloor> - 1"
    by (metis ceiling_altdef ceiling_def add_diff_cancel_right' minus_diff_eq uminus_add_conv_diff)
  show ?thesis
    unfolding rhe_def Let_def fl
    by (auto simp: algebra_simps)
qed

lemma floor_log2_lower:
  assumes "0 < x"
  shows "2 powi floor_log2 x \<le> x"
proof (cases "1 \<le> x")
  case True
  define n where "n = \<lfloor>x\<rfloor>"
  have n: "0 < n" using True by (simp add: n_def)
  have k: "1 \<le> bitlen n" using n bitlen_eq_zero_iff [of n] bitlen_nonneg [of n] by linarith
  have "(2::int) ^ nat (bitlen n - 1) \<le> n" using bitlen_bounds [OF n] by simp
  then have "(of_int ((2::int) ^ nat (bitlen n - 1)) :: rat) \<le> of_int n" by (simp only: of_int_le_iff)
  also have "\<dots> \<le> x" by (simp add: n_def)
  finally have "(2::rat) ^ nat (bitlen n - 1) \<le> x" by simp
  moreover have "floor_log2 x = bitlen n - 1" using True by (simp add: floor_log2_def n_def)
  ultimately show ?thesis using k by (simp add: power_int_def)
next
  case False
  define m where "m = \<lceil>1 / x\<rceil> - 1"
  have "1 < 1 / x" using False assms by simp
  then have m: "0 < m" unfolding m_def by (simp add: less_ceiling_iff)
  have k: "1 \<le> bitlen m" using m bitlen_eq_zero_iff [of m] bitlen_nonneg [of m] by linarith
  have "m < 2 ^ nat (bitlen m)" using bitlen_bounds [OF m] by simp
  then have "\<lceil>1 / x\<rceil> \<le> 2 ^ nat (bitlen m)" by (simp add: m_def)
  then have "1 / x \<le> of_int (2 ^ nat (bitlen m))" by (simp only: ceiling_le_iff)
  then have "1 / x \<le> 2 ^ nat (bitlen m)" by simp
  then have "1 / 2 ^ nat (bitlen m) \<le> x" using assms
    by (simp add: field_simps)
  moreover have "floor_log2 x = - bitlen m" using False by (simp add: floor_log2_def m_def)
  ultimately show ?thesis using k by (simp add: power_int_def field_simps)
qed

lemma floor_log2_upper:
  assumes "0 < x"
  shows "x < 2 powi (floor_log2 x + 1)"
proof (cases "1 \<le> x")
  case True
  define n where "n = \<lfloor>x\<rfloor>"
  have n: "0 < n" using True by (simp add: n_def)
  have k: "1 \<le> bitlen n" using n bitlen_eq_zero_iff [of n] bitlen_nonneg [of n] by linarith
  have "n + 1 \<le> 2 ^ nat (bitlen n)" using bitlen_bounds [OF n] by simp
  then have "(of_int (n + 1) :: rat) \<le> of_int (2 ^ nat (bitlen n))" by (simp only: of_int_le_iff)
  moreover have "x < of_int (n + 1)" unfolding n_def by linarith
  ultimately have "x < 2 ^ nat (bitlen n)" by simp
  moreover have "floor_log2 x = bitlen n - 1" using True by (simp add: floor_log2_def n_def)
  ultimately show ?thesis using k by (simp add: power_int_def)
next
  case False
  define m where "m = \<lceil>1 / x\<rceil> - 1"
  have "1 < 1 / x" using False assms by simp
  then have m: "0 < m" unfolding m_def by (simp add: less_ceiling_iff)
  have k: "1 \<le> bitlen m" using m bitlen_eq_zero_iff [of m] bitlen_nonneg [of m] by linarith
  have "(2::int) ^ nat (bitlen m - 1) \<le> m" using bitlen_bounds [OF m] by simp
  then have "(of_int ((2::int) ^ nat (bitlen m - 1)) :: rat) \<le> of_int m" by (simp only: of_int_le_iff)
  then have "(2::rat) ^ nat (bitlen m - 1) \<le> of_int m" by simp
  moreover have "of_int m < 1 / x" unfolding m_def by linarith
  ultimately have "(2::rat) ^ nat (bitlen m - 1) < 1 / x" by (rule le_less_trans)
  then have "x < 1 / 2 ^ nat (bitlen m - 1)" using assms
    by (simp add: field_simps)
  moreover have "floor_log2 x + 1 = - (bitlen m - 1)" using False by (simp add: floor_log2_def m_def)
  moreover have "(2::rat) powi (- (bitlen m - 1)) = 1 / 2 ^ nat (bitlen m - 1)"
    using k by (simp only: power_int_minus_divide) (simp add: power_int_nonneg_exp)
  ultimately show ?thesis by simp
qed


lemma two_powi_less_iff: "(2::rat) powi m < 2 powi n \<longleftrightarrow> m < n"
proof
  assume "(2::rat) powi m < 2 powi n"
  show "m < n"
  proof (rule ccontr)
    assume "\<not> m < n"
    then have "n \<le> m" by simp
    then have "(2::rat) powi n \<le> 2 powi m" by (rule power_int_increasing) simp
    with \<open>(2::rat) powi m < 2 powi n\<close> show False by simp
  qed
next
  assume "m < n"
  then show "(2::rat) powi m < 2 powi n" by (rule power_int_strict_increasing) simp
qed

lemma two_powi_le_iff: "(2::rat) powi m \<le> 2 powi n \<longleftrightarrow> m \<le> n"
  using two_powi_less_iff [of n m] by (auto simp: not_less [symmetric])

lemma two_powi_pos: "0 < (2::rat) powi n"
  by (simp add: zero_less_power_int)

lemma floor_log2_unique:
  assumes "0 < x" "2 powi k \<le> x" "x < 2 powi (k + 1)"
  shows "floor_log2 x = k"
proof -
  have "2 powi floor_log2 x < (2::rat) powi (k + 1)"
    using floor_log2_lower [OF assms(1)] assms(3) by (rule le_less_trans)
  then have "floor_log2 x < k + 1" by (simp only: two_powi_less_iff)
  moreover have "2 powi k < (2::rat) powi (floor_log2 x + 1)"
    using assms(2) floor_log2_upper [OF assms(1)] by (rule le_less_trans)
  then have "k < floor_log2 x + 1" by (simp only: two_powi_less_iff)
  ultimately show ?thesis by simp
qed

lemma floor_log2_mono:
  assumes "0 < x" "x \<le> y"
  shows "floor_log2 x \<le> floor_log2 y"
proof -
  have y: "0 < y" using assms by simp
  have "2 powi floor_log2 x \<le> x" by (rule floor_log2_lower [OF assms(1)])
  also have "x \<le> y" by fact
  also have "y < 2 powi (floor_log2 y + 1)" by (rule floor_log2_upper [OF y])
  finally have "floor_log2 x < floor_log2 y + 1" by (simp only: two_powi_less_iff)
  then show ?thesis by simp
qed

lemma grid_exp_uminus: "grid_exp (- x) = grid_exp x"
  by (simp add: grid_exp_def)

lemma grid_exp_mono: "0 < x \<Longrightarrow> x \<le> y \<Longrightarrow> grid_exp x \<le> grid_exp y"
  using floor_log2_mono [of x y] by (simp add: grid_exp_def)

lemma round_to_grid_uminus: "round_to_grid (- x) = - round_to_grid x"
  by (simp add: round_to_grid_def grid_exp_uminus rhe_uminus Let_def)

lemma round_to_grid_pos_eq:
  "x \<noteq> 0 \<Longrightarrow> round_to_grid x = of_int (rhe (x / 2 powi grid_exp x)) * 2 powi grid_exp x"
  by (simp add: round_to_grid_def Let_def)

lemma scaled_upper:
  assumes "0 < x"
  shows "x / 2 powi grid_exp x < 2 ^ 53"
proof -
  have "floor_log2 x + 1 \<le> grid_exp x + 53" using assms by (simp add: grid_exp_def)
  then have "(2::rat) powi (floor_log2 x + 1) \<le> 2 powi (grid_exp x + 53)"
    by (simp only: two_powi_le_iff)
  with floor_log2_upper [OF assms] have "x < 2 powi (grid_exp x + 53)" by simp
  also have "\<dots> = 2 powi grid_exp x * 2 ^ 53" by (simp add: power_int_add)
  finally show ?thesis using two_powi_pos [of "grid_exp x"] by (simp add: field_simps)
qed

lemma scaled_lower:
  assumes "0 < x" "- 1074 < grid_exp x"
  shows "2 ^ 52 \<le> x / 2 powi grid_exp x"
proof -
  have "grid_exp x + 52 = floor_log2 x" using assms by (simp add: grid_exp_def max_def split: if_splits)
  then have "(2::rat) powi (grid_exp x + 52) \<le> x" using floor_log2_lower [OF assms(1)] by simp
  moreover have "(2::rat) powi (grid_exp x + 52) = 2 powi grid_exp x * 2 ^ 52" by (simp add: power_int_add)
  ultimately show ?thesis using two_powi_pos [of "grid_exp x"] by (simp add: field_simps)
qed

lemma round_to_grid_upper:
  assumes "0 < x"
  shows "round_to_grid x \<le> 2 powi (grid_exp x + 53)"
proof -
  have "rhe (x / 2 powi grid_exp x) \<le> rhe (of_int (2 ^ 53))"
    using scaled_upper [OF assms] by (intro rhe_mono) simp
  then have "rhe (x / 2 powi grid_exp x) \<le> 2 ^ 53" by (simp only: rhe_of_int)
  then have "(of_int (rhe (x / 2 powi grid_exp x)) :: rat) \<le> of_int (2 ^ 53)" by (simp only: of_int_le_iff)
  then have "(of_int (rhe (x / 2 powi grid_exp x)) :: rat) * 2 powi grid_exp x \<le> of_int (2 ^ 53) * 2 powi grid_exp x"
    using two_powi_pos [of "grid_exp x"] by (simp only: mult_le_cancel_right_pos)
  moreover have "(2::rat) powi (grid_exp x + 53) = of_int (2 ^ 53) * 2 powi grid_exp x" by (simp add: power_int_add)
  ultimately show ?thesis using assms by (simp add: round_to_grid_pos_eq)
qed

lemma round_to_grid_lower:
  assumes "0 < x" "- 1074 < grid_exp x"
  shows "2 powi (grid_exp x + 52) \<le> round_to_grid x"
proof -
  have "rhe (of_int (2 ^ 52)) \<le> rhe (x / 2 powi grid_exp x)"
    using scaled_lower [OF assms] by (intro rhe_mono) simp
  then have "2 ^ 52 \<le> rhe (x / 2 powi grid_exp x)" by (simp only: rhe_of_int)
  then have "(of_int (2 ^ 52) :: rat) \<le> of_int (rhe (x / 2 powi grid_exp x))" by (simp only: of_int_le_iff)
  then have "(of_int (2 ^ 52) :: rat) * 2 powi grid_exp x \<le> of_int (rhe (x / 2 powi grid_exp x)) * 2 powi grid_exp x"
    using two_powi_pos [of "grid_exp x"] by (simp only: mult_le_cancel_right_pos)
  moreover have "(2::rat) powi (grid_exp x + 52) = of_int (2 ^ 52) * 2 powi grid_exp x" by (simp add: power_int_add)
  ultimately show ?thesis using assms by (simp add: round_to_grid_pos_eq)
qed

lemma round_to_grid_mono_pos:
  assumes "0 < x" "x \<le> y"
  shows "round_to_grid x \<le> round_to_grid y"
proof -
  have y: "0 < y" using assms by simp
  have ge: "grid_exp x \<le> grid_exp y" using assms by (rule grid_exp_mono)
  show ?thesis
  proof (cases "grid_exp x = grid_exp y")
    case True
    have "x / 2 powi grid_exp y \<le> y / 2 powi grid_exp y"
      using assms(2) two_powi_pos [of "grid_exp y"] by (intro divide_right_mono) simp_all
    then have "rhe (x / 2 powi grid_exp y) \<le> rhe (y / 2 powi grid_exp y)" by (rule rhe_mono)
    then have "(of_int (rhe (x / 2 powi grid_exp y)) :: rat) \<le> of_int (rhe (y / 2 powi grid_exp y))"
      by (simp only: of_int_le_iff)
    then have "(of_int (rhe (x / 2 powi grid_exp y)) :: rat) * 2 powi grid_exp y
        \<le> of_int (rhe (y / 2 powi grid_exp y)) * 2 powi grid_exp y"
      using two_powi_pos [of "grid_exp y"] by (simp only: mult_le_cancel_right_pos)
    then show ?thesis using assms(1) y True by (simp add: round_to_grid_pos_eq)
  next
    case False
    with ge have lt: "grid_exp x < grid_exp y" by simp
    have "- 1074 \<le> grid_exp x" by (simp add: grid_exp_def)
    with lt have "- 1074 < grid_exp y" by simp
    then have "2 powi (grid_exp y + 52) \<le> round_to_grid y" by (rule round_to_grid_lower [OF y])
    moreover have "round_to_grid x \<le> 2 powi (grid_exp x + 53)" by (rule round_to_grid_upper [OF assms(1)])
    moreover have "(2::rat) powi (grid_exp x + 53) \<le> 2 powi (grid_exp y + 52)"
      using lt by (simp add: two_powi_le_iff)
    ultimately show ?thesis by linarith
  qed
qed

lemma round_to_grid_nonneg: "0 \<le> x \<Longrightarrow> 0 \<le> round_to_grid x"
  using two_powi_pos [of "grid_exp x"] rhe_nonneg [of "x / 2 powi grid_exp x"]
  by (cases "x = 0") (simp_all add: round_to_grid_def Let_def)

lemma round_to_grid_mono:
  assumes "x \<le> y"
  shows "round_to_grid x \<le> round_to_grid y"
proof -
  consider "0 < x" | "y < 0" | "x \<le> 0" "0 \<le> y" by linarith
  then show ?thesis
  proof cases
    case 1
    then show ?thesis using assms by (rule round_to_grid_mono_pos)
  next
    case 2
    then have "0 < - y" "- y \<le> - x" using assms by simp_all
    then have "round_to_grid (- y) \<le> round_to_grid (- x)" by (rule round_to_grid_mono_pos)
    then show ?thesis by (simp add: round_to_grid_uminus)
  next
    case 3
    have "0 \<le> round_to_grid (- x)" using 3(1) by (intro round_to_grid_nonneg) simp
    then have "round_to_grid x \<le> 0" by (simp add: round_to_grid_uminus)
    moreover have "0 \<le> round_to_grid y" using 3(2) by (rule round_to_grid_nonneg)
    ultimately show ?thesis by simp
  qed
qed

section \<open>Representable values and overflow\<close>

lemma round_to_grid_representable:
  assumes e: "- 1074 \<le> e" and m: "\<bar>m\<bar> < 2 ^ 53"
  shows "round_to_grid (of_int m * 2 powi e) = of_int m * 2 powi e"
proof (cases "m = 0")
  case True
  then show ?thesis by (simp add: round_to_grid_def)
next
  case False
  define x :: rat where "x = of_int m * 2 powi e"
  define g where "g = grid_exp x"
  have x0: "x \<noteq> 0" using False by (simp add: x_def)
  have ax: "\<bar>x\<bar> = of_int \<bar>m\<bar> * 2 powi e"
    using two_powi_pos [of e] by (simp add: x_def abs_mult)
  have "(of_int \<bar>m\<bar> :: rat) < of_int (2 ^ 53)" using m by (simp only: of_int_less_iff)
  then have "\<bar>x\<bar> < of_int (2 ^ 53) * 2 powi e"
    unfolding ax using two_powi_pos [of e] by (simp only: mult_less_cancel_right_pos)
  also have "\<dots> = 2 powi (e + 53)" by (simp add: power_int_add)
  finally have up: "\<bar>x\<bar> < 2 powi (e + 53)" .
  have "2 powi floor_log2 \<bar>x\<bar> \<le> \<bar>x\<bar>" using x0 by (intro floor_log2_lower) simp
  then have "(2::rat) powi floor_log2 \<bar>x\<bar> < 2 powi (e + 53)" using up by (rule le_less_trans)
  then have "floor_log2 \<bar>x\<bar> < e + 53" by (simp only: two_powi_less_iff)
  with e have ge: "g \<le> e" by (simp add: g_def grid_exp_def)
  have "(2::rat) powi e = 2 powi (e - g) * 2 powi g"
    using power_int_add [of "2::rat" "e - g" g] by simp
  moreover have "(2::rat) powi (e - g) = of_int (2 ^ nat (e - g))"
    using ge by (simp add: power_int_nonneg_exp)
  ultimately have pe: "(2::rat) powi e = of_int (2 ^ nat (e - g)) * 2 powi g" by simp
  have "x / 2 powi g = of_int (m * 2 ^ nat (e - g))"
    unfolding x_def pe using two_powi_pos [of g] by simp
  then have "rhe (x / 2 powi g) = m * 2 ^ nat (e - g)" by (simp only: rhe_of_int)
  then have "round_to_grid x = of_int (m * 2 ^ nat (e - g)) * 2 powi g"
    using x0 by (simp add: round_to_grid_pos_eq g_def)
  also have "\<dots> = x" unfolding x_def pe by simp
  finally show ?thesis by (simp add: x_def)
qed

lemma round_to_grid_of_int:
  assumes "\<bar>n\<bar> < 2 ^ 53"
  shows "round_to_grid (of_int n) = of_int n"
  using round_to_grid_representable [of 0 n] assms by simp

lemma round_to_grid_powi:
  assumes "- 1074 \<le> k"
  shows "round_to_grid (2 powi k) = 2 powi k"
  using round_to_grid_representable [of k 1] assms by simp

lemma round_to_grid_pow: "round_to_grid (2 ^ n) = 2 ^ n"
  using round_to_grid_powi [of "int n"] by simp

lemma DBL_MAX_eq: "DBL_MAX = of_int (2 ^ 53 - 1) * 2 powi 971"
  by (simp add: DBL_MAX_def)

lemma round_to_grid_DBL_MAX: "round_to_grid DBL_MAX = DBL_MAX"
  unfolding DBL_MAX_eq by (rule round_to_grid_representable) simp_all

lemma DBL_MAX_less: "DBL_MAX < 2 ^ 1024"
proof -
  have "(2 ^ 53 - 1) * (2::rat) ^ 971 < 2 ^ 53 * 2 ^ 971"
    by (intro mult_strict_right_mono) simp_all
  also have "\<dots> = 2 ^ 1024" by (simp flip: power_add)
  finally show ?thesis by (simp add: DBL_MAX_def)
qed

lemma DBL_MAX_ge: "2 ^ 1023 \<le> DBL_MAX"
proof -
  have "(2::rat) ^ 1023 = 2 ^ 52 * 2 ^ 971" by (simp flip: power_add)
  also have "\<dots> \<le> (2 ^ 53 - 1) * 2 ^ 971"
    by (intro mult_right_mono) simp_all
  finally show ?thesis by (simp add: DBL_MAX_def)
qed

lemma DBL_MAX_pos: "0 < DBL_MAX"
  using DBL_MAX_ge by (rule less_le_trans [rotated]) simp

lemma to_float_Fin:
  assumes "- DBL_MAX \<le> x" "x \<le> DBL_MAX"
  shows "to_float x = Fin (round_to_grid x)"
proof -
  have "round_to_grid x \<le> round_to_grid DBL_MAX" using assms(2) by (rule round_to_grid_mono)
  moreover have "round_to_grid (- DBL_MAX) \<le> round_to_grid x" using assms(1) by (rule round_to_grid_mono)
  ultimately show ?thesis
    by (simp add: to_float_def Let_def round_to_grid_uminus round_to_grid_DBL_MAX)
qed

lemma to_float_PInf:
  assumes "2 ^ 1024 \<le> x"
  shows "to_float x = PInf"
proof -
  have "round_to_grid (2 ^ 1024) \<le> round_to_grid x" using assms by (rule round_to_grid_mono)
  then have "2 ^ 1024 \<le> round_to_grid x" by (simp only: round_to_grid_pow)
  with DBL_MAX_less have "DBL_MAX < round_to_grid x" by (rule less_le_trans)
  then show ?thesis by (simp add: to_float_def Let_def)
qed

lemma to_float_nonneg_cases:
  assumes "0 \<le> x"
  shows "to_float x = PInf \<or> (\<exists>r. to_float x = Fin r \<and> 0 \<le> r \<and> r \<le> DBL_MAX \<and> r = round_to_grid x)"
  using round_to_grid_nonneg [OF assms] DBL_MAX_pos
  by (auto simp: to_float_def Let_def)

section \<open>The collecting loop, structurally\<close>

lemma cand_simps [simp]:
  "cand_num (n, d, e) = n" "cand_den (n, d, e) = d" "cand_err (n, d, e) = e"
  by (simp_all add: cand_num_def cand_den_def cand_err_def)

lemma int_truediv_cases:
  "int_truediv a b = Inl ZeroDivisionError \<and> b = 0
   \<or> int_truediv a b = Inl OverflowError \<and> b \<noteq> 0
   \<or> (\<exists>r. int_truediv a b = Inr (Fin r) \<and> b \<noteq> 0 \<and> to_float (of_int a / of_int b) = Fin r)"
  by (cases "to_float (of_int a / of_int b)") (simp_all add: int_truediv_def)

lemma int_truediv_Inr:
  "int_truediv a b = Inr q \<Longrightarrow> b \<noteq> 0 \<and> q = to_float (of_int a / of_int b) \<and> (\<exists>r. q = Fin r)"
  using int_truediv_cases [of a b] by auto

lemma float_of_int_cases:
  "float_of_int n = Inl OverflowError \<or> (\<exists>r. float_of_int n = Inr (Fin r) \<and> to_float (of_int n) = Fin r)"
  by (cases "to_float (of_int n)") (simp_all add: float_of_int_def)

lemma collect_Cons_cases:
  assumes "collect target (den # dens) (cs, sds) = Inr res"
  shows "collect target dens (cs, sds) = Inr res
       \<or> (\<exists>c. generated target den c \<and>
              collect target dens (cs @ [c], if single_digit c then sds @ [c] else sds) = Inr res)"
proof (cases "float_of_int den")
  case (Inl e)
  with assms show ?thesis by simp
next
  case fd: (Inr fden)
  show ?thesis
  proof (cases "py_round (float_mul target fden)")
    case (Inl e)
    with assms fd show ?thesis by simp
  next
    case nm: (Inr num)
    show ?thesis
    proof (cases "num = 0 \<or> gcd num den \<noteq> 1")
      case True
      with assms fd nm have "collect target dens (cs, sds) = Inr res"
        by (simp split: if_splits)
      then show ?thesis ..
    next
      case ok: False
      show ?thesis
      proof (cases "int_truediv num den")
        case (Inl e)
        with assms fd nm ok show ?thesis by simp
      next
        case q: (Inr q)
        define c where "c = (num, den, float_abs (float_sub q target))"
        have "generated target den c"
          using fd nm ok q by (simp add: generated_def c_def)
        moreover have "collect target dens (cs @ [c], if single_digit c then sds @ [c] else sds) = Inr res"
          using assms fd nm ok q by (auto simp: c_def single_digit_def Let_def split: if_splits)
        ultimately show ?thesis by blast
      qed
    qed
  qed
qed

lemma collect_append:
  assumes "collect target dens (cs, sds) = Inr (cs', sds')"
  shows "\<exists>new. cs' = cs @ new \<and> sds' = sds @ filter single_digit new \<and>
           (\<forall>c\<in>set new. cand_den c \<in> set dens \<and> generated target (cand_den c) c) \<and>
           (sorted_wrt (<) dens \<longrightarrow> sorted_wrt (<) (map cand_den new))"
  using assms
proof (induction dens arbitrary: cs sds)
  case Nil
  then show ?case by simp
next
  case (Cons den dens)
  from collect_Cons_cases [OF Cons.prems]
  show ?case
  proof (elim disjE exE conjE)
    assume "collect target dens (cs, sds) = Inr (cs', sds')"
    from Cons.IH [OF this] obtain new where
      "cs' = cs @ new" "sds' = sds @ filter single_digit new"
      "\<forall>c\<in>set new. cand_den c \<in> set dens \<and> generated target (cand_den c) c"
      "sorted_wrt (<) dens \<longrightarrow> sorted_wrt (<) (map cand_den new)" by blast
    then show ?thesis by (intro exI [of _ new]) auto
  next
    fix c
    assume g: "generated target den c"
      and r: "collect target dens (cs @ [c], if single_digit c then sds @ [c] else sds) = Inr (cs', sds')"
    have d: "cand_den c = den" using g
      by (auto simp: generated_def split: sum.splits)
    from Cons.IH [OF r] obtain new where new:
      "cs' = (cs @ [c]) @ new"
      "sds' = (if single_digit c then sds @ [c] else sds) @ filter single_digit new"
      "\<forall>c\<in>set new. cand_den c \<in> set dens \<and> generated target (cand_den c) c"
      "sorted_wrt (<) dens \<longrightarrow> sorted_wrt (<) (map cand_den new)" by blast
    show ?thesis
      using new g d by (intro exI [of _ "c # new"]) auto
  qed
qed

lemma collect_from_empty:
  assumes "collect target dens ([], []) = Inr (cs, sds)"
  shows "sds = filter single_digit cs"
    and "\<forall>c\<in>set cs. cand_den c \<in> set dens \<and> generated target (cand_den c) c"
    and "sorted_wrt (<) dens \<Longrightarrow> sorted_wrt (<) (map cand_den cs)"
  using collect_append [OF assms] by auto

lemma sorted_wrt_upto: "sorted_wrt (<) [i..j]"
  by (induction i j rule: upto.induct) (subst upto.simps, auto)

section \<open>Generated candidates\<close>

lemma to_float_not_NaN: "to_float x \<noteq> NaN"
  by (simp add: to_float_def Let_def)

lemma int_truediv_bounded:
  assumes "b \<noteq> 0" "- DBL_MAX \<le> of_int a / of_int b" "of_int a / of_int b \<le> DBL_MAX"
  shows "int_truediv a b = Inr (Fin (round_to_grid (of_int a / of_int b)))"
  using assms by (simp add: int_truediv_def to_float_Fin)

lemma float_of_int_bounded:
  assumes "- DBL_MAX \<le> of_int n" "of_int n \<le> DBL_MAX"
  shows "float_of_int n = Inr (Fin (round_to_grid (of_int n)))"
  using assms by (simp add: float_of_int_def to_float_Fin)

lemma pow2_le_DBL_MAX: "n \<le> 1023 \<Longrightarrow> 2 ^ n \<le> DBL_MAX"
proof -
  assume "n \<le> 1023"
  then have "(2::rat) ^ n \<le> 2 ^ 1023" by (intro power_increasing) simp_all
  with DBL_MAX_ge show ?thesis by simp
qed

lemma float_of_int_small:
  assumes "\<bar>n\<bar> < 2 ^ 53"
  shows "float_of_int n = Inr (Fin (of_int n))"
proof -
  have "(of_int \<bar>n\<bar> :: rat) < of_int (2 ^ 53)" using assms by (simp only: of_int_less_iff)
  then have "\<bar>of_int n :: rat\<bar> < 2 ^ 53" by simp
  moreover have "(2::rat) ^ 53 \<le> DBL_MAX" by (rule pow2_le_DBL_MAX) simp
  ultimately have "- DBL_MAX \<le> (of_int n :: rat)" "(of_int n :: rat) \<le> DBL_MAX" by linarith+
  then show ?thesis using assms by (simp add: float_of_int_bounded round_to_grid_of_int)
qed

lemma generated_den: "generated target d c \<Longrightarrow> cand_den c = d"
  by (auto simp: generated_def split: sum.splits)

lemma generated_coprime: "generated target d c \<Longrightarrow> gcd (cand_num c) (cand_den c) = 1"
  by (auto simp: generated_def split: sum.splits)

lemma generated_err_abs: "generated target d c \<Longrightarrow> \<exists>v. cand_err c = float_abs v"
  by (auto simp: generated_def split: sum.splits)

lemma generated_ok:
  assumes g: "generated (Fin t) d c" and t: "0 \<le> t" "t \<le> DBL_MAX" and d: "1 \<le> d"
  shows "candidate_ok (Fin t) c"
proof -
  from g obtain fden num q where
    fd: "float_of_int d = Inr fden" and
    nm: "py_round (float_mul (Fin t) fden) = Inr num" and
    n0: "num \<noteq> 0" and cp: "gcd num d = 1" and
    q: "int_truediv num d = Inr q" and
    c: "c = (num, d, float_abs (float_sub q (Fin t)))"
    by (auto simp: generated_def split: sum.splits)
  have "(0::rat) \<le> of_int d" using d by simp
  from to_float_nonneg_cases [OF this] fd float_of_int_cases [of d]
  obtain x where x: "fden = Fin x" "0 \<le> x" by auto
  have "0 \<le> t * x" using t x by simp
  from to_float_nonneg_cases [OF this] nm x
  obtain p where p: "to_float (t * x) = Fin p" "0 \<le> p" by auto
  have "num = rhe p" using nm x p by simp
  then have "0 \<le> num" using p rhe_nonneg by simp
  with n0 have np: "0 < num" by simp
  have "(0::rat) \<le> of_int num / of_int d" using np d by simp
  from to_float_nonneg_cases [OF this] int_truediv_Inr [OF q]
  obtain r where r: "q = Fin r" "0 \<le> r" "r \<le> DBL_MAX" by auto
  have "- DBL_MAX \<le> r - t" "r - t \<le> DBL_MAX" using r t by simp_all
  then have "float_sub q (Fin t) = Fin (round_to_grid (r - t))"
    using r by (simp add: to_float_Fin)
  then show ?thesis
    using np d cp q c by (simp add: candidate_ok_def)
qed

section \<open>The loop: errors, totality, empty and non-empty results\<close>

lemma float_mul_Fin_cases:
  "float_mul (Fin t) (Fin x) = PInf \<or> float_mul (Fin t) (Fin x) = NInf
   \<or> (\<exists>p. float_mul (Fin t) (Fin x) = Fin p)"
  using to_float_not_NaN [of "t * x"] by (cases "to_float (t * x)") simp_all

lemma collect_only_overflow:
  assumes "collect (Fin t) dens acc = Inl e" "0 \<notin> set dens"
  shows "e = OverflowError"
  using assms
proof (induction dens arbitrary: acc)
  case Nil
  then show ?case by (cases acc) simp
next
  case (Cons den dens)
  obtain cs sds where acc: "acc = (cs, sds)" by (cases acc)
  have d0: "den \<noteq> 0" and rest: "0 \<notin> set dens" using Cons.prems(2) by auto
  show ?case
  proof (cases "float_of_int den")
    case (Inl e')
    with Cons.prems(1) acc float_of_int_cases [of den] show ?thesis by auto
  next
    case fd: (Inr fden)
    with float_of_int_cases [of den] obtain x where x: "fden = Fin x" by auto
    show ?thesis
    proof (cases "py_round (float_mul (Fin t) fden)")
      case (Inl e')
      with Cons.prems(1) acc fd x float_mul_Fin_cases [of t x] show ?thesis by auto
    next
      case nm: (Inr num)
      show ?thesis
      proof (cases "num = 0 \<or> gcd num den \<noteq> 1")
        case True
        with Cons.prems(1) acc fd nm have "collect (Fin t) dens (cs, sds) = Inl e"
          by (simp split: if_splits)
        then show ?thesis using rest by (rule Cons.IH)
      next
        case ok: False
        show ?thesis
        proof (cases "int_truediv num den")
          case (Inl e')
          with Cons.prems(1) acc fd nm ok d0 int_truediv_cases [of num den] show ?thesis by auto
        next
          case q: (Inr q)
          with Cons.prems(1) acc fd nm ok obtain acc' where "collect (Fin t) dens acc' = Inl e"
            by (auto simp: Let_def split: if_splits)
          then show ?thesis using rest by (rule Cons.IH)
        qed
      qed
    qed
  qed
qed

lemma collect_small_empty:
  assumes "0 \<le> t" "\<forall>d\<in>set dens. 1 \<le> d \<and> d < 2 ^ 53 \<and> t * of_int d \<le> 1 / 2"
  shows "collect (Fin t) dens (cs, sds) = Inr (cs, sds)"
  using assms(2)
proof (induction dens)
  case Nil
  then show ?case by simp
next
  case (Cons den dens)
  then have d: "1 \<le> den" "den < 2 ^ 53" "t * of_int den \<le> 1 / 2" by auto
  have fd: "float_of_int den = Inr (Fin (of_int den))" using d by (intro float_of_int_small) simp
  have lo: "0 \<le> t * of_int den" using assms(1) d by simp
  have "(1::rat) / 2 \<le> 2 ^ 1" by simp
  also have "\<dots> \<le> DBL_MAX" by (rule pow2_le_DBL_MAX) simp
  finally have "t * of_int den \<le> DBL_MAX" using d(3) by simp
  then have m: "to_float (t * of_int den) = Fin (round_to_grid (t * of_int den))"
    using lo DBL_MAX_pos by (intro to_float_Fin) simp_all
  have "round_to_grid (1 / 2) = 1 / 2"
    using round_to_grid_powi [of "- 1"] by (simp add: power_int_minus_divide)
  then have "round_to_grid (t * of_int den) \<le> 1 / 2"
    using round_to_grid_mono [OF d(3)] by simp
  then have "rhe (round_to_grid (t * of_int den)) \<le> rhe (1 / 2)" by (rule rhe_mono)
  moreover have "\<lfloor>(1::rat) / 2\<rfloor> = 0" by (simp add: floor_eq_iff)
  then have "rhe (1 / 2) = 0" by (simp add: rhe_def Let_def)
  moreover have "0 \<le> rhe (round_to_grid (t * of_int den))"
    using lo by (intro rhe_nonneg round_to_grid_nonneg)
  ultimately have "rhe (round_to_grid (t * of_int den)) = 0" by simp
  then show ?case using fd m Cons by simp
qed

lemma collect_total_bounded:
  assumes "0 \<le> t" "t \<le> 2 ^ 960" "\<forall>d\<in>set dens. 1 \<le> d \<and> d \<le> 2 ^ 63"
  shows "\<exists>res. collect (Fin t) dens acc = Inr res"
  using assms(3)
proof (induction dens arbitrary: acc)
  case Nil
  then show ?case by (cases acc) simp
next
  case (Cons den dens)
  obtain cs sds where acc: "acc = (cs, sds)" by (cases acc)
  from Cons.prems have d: "1 \<le> den" "den \<le> 2 ^ 63" and rest: "\<forall>d\<in>set dens. 1 \<le> d \<and> d \<le> 2 ^ 63"
    by auto
  have dr: "(1::rat) \<le> of_int den" using d(1) by simp
  have "(of_int den :: rat) \<le> of_int (2 ^ 63)" using d(2) by (simp only: of_int_le_iff)
  then have du: "(of_int den :: rat) \<le> 2 ^ 63" by simp
  have "(2::rat) ^ 63 \<le> DBL_MAX" by (rule pow2_le_DBL_MAX) simp
  with du dr DBL_MAX_pos have fd: "float_of_int den = Inr (Fin (round_to_grid (of_int den)))"
    by (intro float_of_int_bounded) linarith+
  define x where "x = round_to_grid (of_int den)"
  have x0: "0 \<le> x" unfolding x_def using dr by (intro round_to_grid_nonneg) simp
  have "x \<le> round_to_grid (2 ^ 63)" unfolding x_def using du by (rule round_to_grid_mono)
  then have xu: "x \<le> 2 ^ 63" by (simp only: round_to_grid_pow)
  have p0: "0 \<le> t * x" using assms(1) x0 by simp
  have "t * x \<le> 2 ^ 960 * 2 ^ 63" using assms(1,2) x0 xu by (intro mult_mono) simp_all
  also have "\<dots> = (2::rat) ^ 1023" by (simp flip: power_add)
  finally have pu: "t * x \<le> 2 ^ 1023" .
  have "t * x \<le> DBL_MAX" using pu DBL_MAX_ge by simp
  then have m: "to_float (t * x) = Fin (round_to_grid (t * x))"
    using p0 DBL_MAX_pos by (intro to_float_Fin) simp_all
  define num where "num = rhe (round_to_grid (t * x))"
  have nm: "py_round (float_mul (Fin t) (Fin x)) = Inr num" using m by (simp add: num_def)
  have n0: "0 \<le> num" unfolding num_def using p0 by (intro rhe_nonneg round_to_grid_nonneg)
  have "round_to_grid (t * x) \<le> round_to_grid (2 ^ 1023)" using pu by (rule round_to_grid_mono)
  then have "round_to_grid (t * x) \<le> of_int (2 ^ 1023)" by (simp only: round_to_grid_pow) simp
  then have "num \<le> rhe (of_int (2 ^ 1023))" unfolding num_def by (rule rhe_mono)
  then have "num \<le> 2 ^ 1023" by (simp only: rhe_of_int)
  then have "(of_int num :: rat) \<le> of_int (2 ^ 1023)" by (simp only: of_int_le_iff)
  then have nu: "(of_int num :: rat) \<le> 2 ^ 1023" by simp
  have "(of_int num :: rat) / of_int den \<le> of_int num / 1"
    using n0 dr by (intro divide_left_mono) simp_all
  then have qu: "(of_int num :: rat) / of_int den \<le> DBL_MAX" using nu DBL_MAX_ge by simp
  have q0: "(0::rat) \<le> of_int num / of_int den" using n0 dr by simp
  have q: "int_truediv num den = Inr (Fin (round_to_grid (of_int num / of_int den)))"
    using d(1) q0 qu DBL_MAX_pos by (intro int_truediv_bounded) simp_all
  show ?case
    using fd nm q Cons.IH [OF rest] unfolding acc x_def [symmetric]
    by (simp add: Let_def)
qed


section \<open>Sorting by error\<close>

lemma set_insort_err: "set (insort_err x ys) = insert x (set ys)"
  by (induction ys) auto

lemma length_insort_err: "length (insort_err x ys) = Suc (length ys)"
  by (induction ys) auto

lemma sort_err_Cons: "sort_err (x # xs) = insort_err x (sort_err xs)"
  by (simp add: sort_err_def)

lemma sort_err_Nil: "sort_err [] = []"
  by (simp add: sort_err_def)

lemma set_sort_err: "set (sort_err xs) = set xs"
  by (induction xs) (simp_all add: sort_err_Nil sort_err_Cons set_insort_err)

lemma length_sort_err: "length (sort_err xs) = length xs"
  by (induction xs) (simp_all add: sort_err_Nil sort_err_Cons length_insort_err)

lemma sort_err_eq_Nil: "sort_err xs = [] \<longleftrightarrow> xs = []"
  using length_sort_err [of xs] by (metis length_0_conv)

lemma candidate_ok_err: "candidate_ok target c \<Longrightarrow> \<exists>r. cand_err c = Fin r"
  by (auto simp: candidate_ok_def split: pyfloat.splits)

lemma sorted_insort_err:
  assumes "sorted_wrt ranks_before ys"
    and "\<forall>y\<in>set ys. cand_den x < cand_den y"
    and "\<exists>r. cand_err x = Fin r"
    and "\<forall>y\<in>set ys. \<exists>r. cand_err y = Fin r"
  shows "sorted_wrt ranks_before (insort_err x ys)"
  using assms
proof (induction ys)
  case Nil
  then show ?case by simp
next
  case (Cons y ys)
  obtain rx where rx: "cand_err x = Fin rx" using Cons.prems(3) by blast
  obtain ry where ry: "cand_err y = Fin ry" using Cons.prems(4) by auto
  show ?case
  proof (cases "float_lt (cand_err y) (cand_err x)")
    case True
    have "sorted_wrt ranks_before (insort_err x ys)"
      using Cons.prems by (intro Cons.IH) auto
    moreover have "\<forall>z\<in>set (insort_err x ys). ranks_before y z"
      using True Cons.prems(1) by (auto simp: set_insort_err ranks_before_def)
    ultimately show ?thesis using True by simp
  next
    case False
    then have le: "rx \<le> ry" using rx ry by simp
    have "ranks_before x z" if zin: "z \<in> set (y # ys)" for z
    proof -
      have "\<exists>r. cand_err z = Fin r" using Cons.prems(4) zin by blast
      then obtain rz where rz: "cand_err z = Fin rz" ..
      have dz: "cand_den x < cand_den z" using Cons.prems(2) zin by blast
      have "ry \<le> rz"
      proof (cases "z = y")
        case True
        then show ?thesis using ry rz by simp
      next
        case False
        with zin have "z \<in> set ys" by simp
        with Cons.prems(1) have "ranks_before y z" by simp
        then show ?thesis using ry rz by (auto simp: ranks_before_def)
      qed
      with le have "rx \<le> rz" by simp
      then show ?thesis using rx rz dz by (auto simp: ranks_before_def)
    qed
    then show ?thesis using False Cons.prems(1) by simp
  qed
qed

lemma sorted_sort_err:
  assumes "sorted_wrt (<) (map cand_den xs)" "\<forall>c\<in>set xs. \<exists>r. cand_err c = Fin r"
  shows "sorted_wrt ranks_before (sort_err xs)"
  using assms
proof (induction xs)
  case Nil
  then show ?case by (simp add: sort_err_Nil)
next
  case (Cons x xs)
  have "sorted_wrt ranks_before (sort_err xs)" using Cons.prems by (intro Cons.IH) auto
  then show ?case
    unfolding sort_err_Cons using Cons.prems
    by (intro sorted_insort_err) (auto simp: set_sort_err)
qed

lemma take_sorted_wrt_rest:
  assumes "sorted_wrt R l" "c \<in> set l" "c \<notin> set (take n l)" "x \<in> set (take n l)"
  shows "R x c"
proof -
  have "sorted_wrt R (take n l @ drop n l)" using assms(1) by simp
  then have "\<forall>u\<in>set (take n l). \<forall>v\<in>set (drop n l). R u v"
    by (simp only: sorted_wrt_append) simp
  moreover have "c \<in> set (drop n l)"
    using assms(2,3) by (metis Un_iff append_take_drop_id set_append)
  ultimately show ?thesis using assms(4) by blast
qed

lemma sorted_wrt_take_local: "sorted_wrt R l \<Longrightarrow> sorted_wrt R (take n l)"
proof -
  assume "sorted_wrt R l"
  then have "sorted_wrt R (take n l @ drop n l)" by simp
  then show ?thesis by (simp only: sorted_wrt_append)
qed

section \<open>Results of the core function\<close>

subsection \<open>Concrete values\<close>

lemma to_float_of_int_small:
  assumes "\<bar>n\<bar> < 2 ^ 53"
  shows "to_float (of_int n) = Fin (of_int n)"
  using float_of_int_small [OF assms] float_of_int_cases [of n] by auto

lemma to_float_0: "to_float 0 = Fin 0"
  using to_float_of_int_small [of 0] by simp


lemma float_sub_self: "float_sub (Fin x) (Fin x) = Fin 0"
  by (simp add: to_float_0)



lemma float_lt_abs_zero: "\<not> float_lt (float_abs v) (Fin 0)"
  by (cases v) simp_all

subsection \<open>The shape of a returned result\<close>

lemma approximate_top5_InrD:
  assumes "approximate_top5 cfg a b = Inr res"
  shows "\<exists>target cs sds. int_truediv a b = Inr target \<and>
           collect target [1..MAX_DENOMINATOR cfg] ([], []) = Inr (cs, sds)"
  using assms by (auto simp: approximate_top5_def split: sum.splits)

lemma approximate_top5_ranked:
  assumes "int_truediv a b = Inr target"
    and "collect target [1..MAX_DENOMINATOR cfg] ([], []) = Inr (cs, sds)"
    and "cs \<noteq> []"
  shows "approximate_top5 cfg a b =
     (if sds = [] then Inr (MNone, take 5 (sort_err cs))
      else case sort_err sds of
             [] \<Rightarrow> Inl IndexError
           | best # rest \<Rightarrow>
               if float_lt (cand_err best) (SINGLE_DIGIT_THRESHOLD cfg)
                  \<and> \<not> (cand_num best = cand_num (hd (sort_err cs))
                        \<and> cand_den best = cand_den (hd (sort_err cs)))
               then Inr (MTuple best, take 5 (sort_err cs))
               else Inr (MNone, take 5 (sort_err cs)))"
proof -
  from assms(3) obtain c0 rest0 where "sort_err cs = c0 # rest0"
    using sort_err_eq_Nil [of cs] by (cases "sort_err cs") auto
  then show ?thesis
    using assms by (simp add: approximate_top5_def Let_def split: list.splits)
qed

lemma approximate_top5_limit_small:
  assumes "int_truediv a b = Inr target"
    and "collect target [1..MAX_DENOMINATOR cfg] ([], []) = Inr ([], sds)"
    and "a < b"
  shows "approximate_top5 cfg a b =
     (case int_truediv b a of
        Inl e \<Rightarrow> Inl e
      | Inr r \<Rightarrow>
     (case py_round r of
        Inl e \<Rightarrow> Inl e
      | Inr k \<Rightarrow>
     (case int_truediv 1 (max 1 k) of
        Inl e \<Rightarrow> Inl e
      | Inr q \<Rightarrow>
          Inr (MStr ''limit_small'', [(1, max 1 k, float_abs (float_sub q target))]))))"
  using assms by (simp add: approximate_top5_def Let_def split: sum.splits)

lemma approximate_top5_limit_large:
  assumes "int_truediv a b = Inr target"
    and "collect target [1..MAX_DENOMINATOR cfg] ([], []) = Inr ([], sds)"
    and "\<not> a < b"
  shows "approximate_top5 cfg a b =
     (case py_round target of
        Inl e \<Rightarrow> Inl e
      | Inr k \<Rightarrow>
     (case int_truediv (max 1 k) 1 of
        Inl e \<Rightarrow> Inl e
      | Inr q \<Rightarrow>
          Inr (MStr ''limit_large'', [(max 1 k, 1, float_abs (float_sub q target))])))"
  using assms by (simp add: approximate_top5_def Let_def split: sum.splits)

section \<open>Concrete queries\<close>

text \<open>Queries under the default configuration, settled through the lemmas above.\<close>

lemma MAX_DENOMINATOR_default: "MAX_DENOMINATOR default_config = 64"
  by (simp add: default_config_def)


lemma set_upto_D: "d \<in> set [i..j] \<Longrightarrow> i \<le> d \<and> d \<le> j"
  by (simp only: set_upto atLeastAtMost_iff)

lemma int_truediv_one_over:
  assumes "1 \<le> b"
  shows "\<exists>t. int_truediv 1 b = Inr (Fin t) \<and> t = round_to_grid (1 / of_int b) \<and> 0 \<le> t \<and> t \<le> 1"
proof -
  have q0: "(0::rat) \<le> 1 / of_int b" and q1: "(1::rat) / of_int b \<le> 1" using assms by simp_all
  have "(1::rat) \<le> 2 ^ 0" by simp
  also have "\<dots> \<le> DBL_MAX" by (rule pow2_le_DBL_MAX) simp
  finally have "- DBL_MAX \<le> (1::rat) / of_int b" "(1::rat) / of_int b \<le> DBL_MAX"
    using q0 q1 by linarith+
  then have "int_truediv 1 b = Inr (Fin (round_to_grid (1 / of_int b)))"
    using assms int_truediv_bounded [of b 1] by simp
  moreover have "0 \<le> round_to_grid (1 / of_int b)" using q0 by (rule round_to_grid_nonneg)
  moreover have "round_to_grid (1 / of_int b) \<le> round_to_grid 1" using q1 by (rule round_to_grid_mono)
  then have "round_to_grid (1 / of_int b) \<le> 1" using round_to_grid_of_int [of 1] by simp
  ultimately show ?thesis by blast
qed

lemma approximate_top5_default_one_over:
  assumes "128 \<le> b"
  shows "\<exists>t. int_truediv 1 b = Inr (Fin t) \<and>
           collect (Fin t) [1..64] ([], []) = Inr ([], []) \<and>
           approximate_top5 default_config 1 b =
             (case int_truediv b 1 of
                Inl e \<Rightarrow> Inl e
              | Inr r \<Rightarrow>
             (case py_round r of
                Inl e \<Rightarrow> Inl e
              | Inr k \<Rightarrow>
             (case int_truediv 1 (max 1 k) of
                Inl e \<Rightarrow> Inl e
              | Inr q \<Rightarrow>
                  Inr (MStr ''limit_small'', [(1, max 1 k, float_abs (float_sub q (Fin t)))]))))"
proof -
  from int_truediv_one_over [of b] assms obtain t where
    t: "int_truediv 1 b = Inr (Fin t)" "t = round_to_grid (1 / of_int b)" "0 \<le> t" by auto
  have "(of_int 128 :: rat) \<le> of_int b" using assms by (simp only: of_int_le_iff)
  then have "(1::rat) / of_int b \<le> 1 / 128" by (simp add: field_simps)
  then have "t \<le> round_to_grid (1 / 128)" unfolding t(2) by (rule round_to_grid_mono)
  moreover have "round_to_grid (1 / 128) = 1 / 128"
    using round_to_grid_powi [of "- 7"] by (simp add: power_int_minus_divide)
  ultimately have tu: "t \<le> 1 / 128" by simp
  have "\<forall>d\<in>set [1..64]. 1 \<le> d \<and> d < 2 ^ 53 \<and> t * of_int d \<le> 1 / 2"
  proof
    fix d :: int
    assume "d \<in> set [1..64]"
    then have d: "1 \<le> d" "d \<le> 64" using set_upto_D [of d 1 64] by blast+
    then have "(of_int d :: rat) \<le> of_int 64" by (simp only: of_int_le_iff)
    then have "t * of_int d \<le> 1 / 128 * 64" using tu t(3) d(1) by (intro mult_mono) simp_all
    then show "1 \<le> d \<and> d < 2 ^ 53 \<and> t * of_int d \<le> 1 / 2" using d by simp
  qed
  then have col: "collect (Fin t) [1..64] ([], []) = Inr ([], [])"
    using t(3) by (intro collect_small_empty)
  have "1 < b" using assms by simp
  then show ?thesis
    using t(1) col approximate_top5_limit_small [of 1 b "Fin t" default_config "[]"]
    by (simp add: MAX_DENOMINATOR_default)
qed

lemma approximate_top5_default_1_1000:
  "approximate_top5 default_config 1 1000 = Inr (MStr ''limit_small'', [(1, 1000, Fin 0)])"
proof -
  from approximate_top5_default_one_over [of 1000] obtain t where
    t: "int_truediv 1 1000 = Inr (Fin t)" and
    r: "approximate_top5 default_config 1 1000 =
         (case int_truediv 1000 1 of
            Inl e \<Rightarrow> Inl e
          | Inr r \<Rightarrow>
         (case py_round r of
            Inl e \<Rightarrow> Inl e
          | Inr k \<Rightarrow>
         (case int_truediv 1 (max 1 k) of
            Inl e \<Rightarrow> Inl e
          | Inr q \<Rightarrow>
              Inr (MStr ''limit_small'', [(1, max 1 k, float_abs (float_sub q (Fin t)))]))))"
    by auto
  have "to_float (of_int 1000) = Fin (of_int 1000)" by (rule to_float_of_int_small) simp
  then have d: "int_truediv 1000 1 = Inr (Fin 1000)" by (simp add: int_truediv_def)
  have k: "py_round (Fin 1000) = Inr 1000" using rhe_of_int [of 1000] by simp
  show ?thesis unfolding r d using k t by (simp add: to_float_0)
qed

lemma int_truediv_overflow: "int_truediv (2 ^ 1024) 1 = Inl OverflowError"
proof -
  have "to_float (of_int (2 ^ 1024) / of_int 1) = PInf" by (rule to_float_PInf) simp
  then show ?thesis by (simp add: int_truediv_def)
qed

lemma approximate_top5_huge_numerator:
  "approximate_top5 cfg (2 ^ 1024) 1 = Inl OverflowError"
  unfolding approximate_top5_def int_truediv_overflow by simp

lemma approximate_top5_huge_denominator:
  "approximate_top5 default_config 1 (2 ^ 1024) = Inl OverflowError"
proof -
  have "(128::int) = 2 ^ 7" by simp
  also have "\<dots> \<le> 2 ^ 1024" by (rule power_increasing) simp_all
  finally have "(128::int) \<le> 2 ^ 1024" .
  from approximate_top5_default_one_over [OF this] obtain t where
    "approximate_top5 default_config 1 (2 ^ 1024) =
       (case int_truediv (2 ^ 1024) 1 of
          Inl e \<Rightarrow> Inl e
        | Inr r \<Rightarrow>
       (case py_round r of
          Inl e \<Rightarrow> Inl e
        | Inr k \<Rightarrow>
       (case int_truediv 1 (max 1 k) of
          Inl e \<Rightarrow> Inl e
        | Inr q \<Rightarrow>
            Inr (MStr ''limit_small'', [(1, max 1 k, float_abs (float_sub q (Fin t)))]))))"
    by blast
  then show ?thesis unfolding int_truediv_overflow by simp
qed




section \<open>Queries on positive integers\<close>

text \<open>The target of a query on positive integers, and the two fallback branches.\<close>

lemma target_positive:
  assumes "0 < a" "0 < b" "int_truediv a b = Inr target"
  shows "\<exists>t. target = Fin t \<and> 0 \<le> t \<and> t \<le> DBL_MAX \<and> t = round_to_grid (of_int a / of_int b)"
proof -
  have "(0::rat) \<le> of_int a / of_int b" using assms(1,2) by simp
  from to_float_nonneg_cases [OF this] int_truediv_Inr [OF assms(3)]
  show ?thesis by auto
qed



lemma zero_notin_upto_1: "0 \<notin> set [1..n]"
  by (simp only: set_upto atLeastAtMost_iff) simp

lemma limit_small_total:
  assumes "int_truediv b a = Inr r"
  shows "\<exists>k q. py_round r = Inr k \<and> int_truediv 1 (max 1 k) = Inr q"
proof -
  from int_truediv_Inr [OF assms] obtain x where "r = Fin x" by blast
  then have "py_round r = Inr (rhe x)" by simp
  moreover from int_truediv_one_over [of "max 1 (rhe x)"]
  obtain q where "int_truediv 1 (max 1 (rhe x)) = Inr q" by auto
  ultimately show ?thesis by blast
qed

lemma DBL_MAX_int: "DBL_MAX = of_int ((2 ^ 53 - 1) * 2 ^ 971)"
  by (simp add: DBL_MAX_def)

lemma limit_large_total:
  assumes "t \<le> DBL_MAX"
  shows "\<exists>q. py_round (Fin t) = Inr (rhe t) \<and> int_truediv (max 1 (rhe t)) 1 = Inr q"
proof -
  have "rhe t \<le> rhe DBL_MAX" using assms by (rule rhe_mono)
  also have "rhe DBL_MAX = (2 ^ 53 - 1) * 2 ^ 971" unfolding DBL_MAX_int by (rule rhe_of_int)
  finally have "(of_int (rhe t) :: rat) \<le> of_int ((2 ^ 53 - 1) * 2 ^ 971)"
    by (simp only: of_int_le_iff)
  then have k: "(of_int (rhe t) :: rat) \<le> DBL_MAX" by (simp only: DBL_MAX_int)
  have "(1::rat) \<le> 2 ^ 0" by simp
  also have "\<dots> \<le> DBL_MAX" by (rule pow2_le_DBL_MAX) simp
  finally have "(of_int (max 1 (rhe t)) :: rat) \<le> DBL_MAX" using k by (simp add: max_def)
  moreover have "- DBL_MAX \<le> (of_int (max 1 (rhe t)) :: rat)"
    using DBL_MAX_pos by (simp add: max_def)
  ultimately have "int_truediv (max 1 (rhe t)) 1
      = Inr (Fin (round_to_grid (of_int (max 1 (rhe t)) / of_int 1)))"
    by (intro int_truediv_bounded) simp_all
  then show ?thesis by simp
qed

lemma int_truediv_Inl_nonzero: "int_truediv a b = Inl e \<Longrightarrow> b \<noteq> 0 \<Longrightarrow> e = OverflowError"
  using int_truediv_cases [of a b] by auto

text \<open>What a query on positive integers results in, branch by branch.\<close>

lemma approximate_top5_after_loop:
  assumes "0 < a" "0 < b"
    and t: "int_truediv a b = Inr target"
    and col: "collect target [1..MAX_DENOMINATOR cfg] ([], []) = Inr (cs, sds)"
  shows "cs = [] \<and> a < b \<and> int_truediv b a = Inl OverflowError
               \<and> approximate_top5 cfg a b = Inl OverflowError
        \<or> (\<exists>m l. approximate_top5 cfg a b = Inr (m, l) \<and> l \<noteq> [])"
proof (cases "cs = []")
  case False
  then have ne: "take 5 (sort_err cs) \<noteq> []" using sort_err_eq_Nil [of cs] by simp
  show ?thesis
  proof (cases "sort_err sds")
    case Nil
    then have "sds = []" by (simp only: sort_err_eq_Nil)
    then show ?thesis using approximate_top5_ranked [OF t col False] ne by simp
  next
    case (Cons best rest)
    then have "sds \<noteq> []" using sort_err_eq_Nil [of sds] by auto
    then show ?thesis using approximate_top5_ranked [OF t col False] ne Cons by auto
  qed
next
  case True
  note col' = col [unfolded True]
  from target_positive [OF assms(1,2) t] obtain x where x: "target = Fin x" "x \<le> DBL_MAX" by blast
  show ?thesis
  proof (cases "a < b")
    case small: True
    show ?thesis
    proof (cases "int_truediv b a")
      case (Inl e)
      then have "e = OverflowError" using assms(1) int_truediv_Inl_nonzero [of b a e] by simp
      with Inl True small approximate_top5_limit_small [OF t col' small]
      show ?thesis by simp
    next
      case (Inr r)
      from limit_small_total [OF Inr] obtain k q where
        "py_round r = Inr k" "int_truediv 1 (max 1 k) = Inr q" by blast
      with Inr approximate_top5_limit_small [OF t col' small] show ?thesis by simp
    qed
  next
    case large: False
    from limit_large_total [OF x(2)] obtain q where
      "py_round (Fin x) = Inr (rhe x)" "int_truediv (max 1 (rhe x)) 1 = Inr q" by blast
    with approximate_top5_limit_large [OF t col' large] x(1) show ?thesis by simp
  qed
qed

lemma approximate_top5_cases:
  assumes "0 < a" "0 < b"
  shows "approximate_top5 cfg a b = Inl OverflowError
       \<or> (\<exists>m l. approximate_top5 cfg a b = Inr (m, l) \<and> l \<noteq> [])"
proof (cases "int_truediv a b")
  case (Inl e)
  then have "e = OverflowError" using assms(2) int_truediv_Inl_nonzero [of a b e] by simp
  with Inl show ?thesis by (simp add: approximate_top5_def)
next
  case t: (Inr target)
  from target_positive [OF assms t] obtain x where x: "target = Fin x" by blast
  show ?thesis
  proof (cases "collect target [1..MAX_DENOMINATOR cfg] ([], [])")
    case (Inl e)
    then have "e = OverflowError"
      unfolding x using zero_notin_upto_1 by (rule collect_only_overflow)
    with Inl t show ?thesis by (simp add: approximate_top5_def)
  next
    case (Inr res)
    obtain cs sds where res: "res = (cs, sds)" by (cases res)
    from approximate_top5_after_loop [OF assms t Inr [unfolded res]]
    show ?thesis by blast
  qed
qed

lemma int_truediv_positive_bounded:
  assumes "0 < a" "0 < b" "a \<le> 2 ^ 960"
  shows "\<exists>t. int_truediv a b = Inr (Fin t) \<and> 0 \<le> t \<and> t \<le> 2 ^ 960"
proof -
  have "(of_int a :: rat) \<le> of_int (2 ^ 960)" using assms(3) by (simp only: of_int_le_iff)
  then have au: "(of_int a :: rat) \<le> 2 ^ 960" by simp
  have "(1::rat) \<le> of_int b" using assms(2) by simp
  then have "(of_int a :: rat) / of_int b \<le> of_int a / 1"
    using assms(1) by (intro divide_left_mono) simp_all
  with au have qu: "(of_int a :: rat) / of_int b \<le> 2 ^ 960" by simp
  have q0: "(0::rat) \<le> of_int a / of_int b" using assms(1,2) by simp
  have "(2::rat) ^ 960 \<le> DBL_MAX" by (rule pow2_le_DBL_MAX) simp
  with qu q0 DBL_MAX_pos have "int_truediv a b = Inr (Fin (round_to_grid (of_int a / of_int b)))"
    using assms(2) by (intro int_truediv_bounded) simp_all
  moreover have "0 \<le> round_to_grid (of_int a / of_int b)" using q0 by (rule round_to_grid_nonneg)
  moreover have "round_to_grid (of_int a / of_int b) \<le> round_to_grid (2 ^ 960)"
    using qu by (rule round_to_grid_mono)
  then have "round_to_grid (of_int a / of_int b) \<le> 2 ^ 960" by (simp only: round_to_grid_pow)
  ultimately show ?thesis by blast
qed

lemma approximate_top5_total_bounded:
  assumes "0 < a" "0 < b" "a \<le> 2 ^ 960" "b \<le> 2 ^ 960" "MAX_DENOMINATOR cfg \<le> 2 ^ 63"
  shows "\<exists>m l. approximate_top5 cfg a b = Inr (m, l) \<and> l \<noteq> []"
proof -
  from int_truediv_positive_bounded [OF assms(1,2,3)] obtain t where
    t: "int_truediv a b = Inr (Fin t)" "0 \<le> t" "t \<le> 2 ^ 960" by blast
  have "\<forall>d\<in>set [1..MAX_DENOMINATOR cfg]. 1 \<le> d \<and> d \<le> 2 ^ 63"
    using assms(5) by (simp only: set_upto atLeastAtMost_iff) auto
  from collect_total_bounded [OF t(2,3) this]
  obtain res where res: "collect (Fin t) [1..MAX_DENOMINATOR cfg] ([], []) = Inr res" by blast
  from int_truediv_positive_bounded [OF assms(2,1,4)]
  have ba: "int_truediv b a \<noteq> Inl OverflowError" by auto
  obtain cs sds where "res = (cs, sds)" by (cases res)
  from approximate_top5_after_loop [OF assms(1,2) t(1) res [unfolded this]] ba
  show ?thesis by blast
qed

section \<open>Ranking\<close>

text \<open>The loop's lists on a target that is finite and not negative.\<close>

lemma collect_candidates_ok:
  assumes "collect (Fin t) [1..n] ([], []) = Inr (cs, sds)" "0 \<le> t" "t \<le> DBL_MAX"
  shows "\<forall>c\<in>set cs. candidate_ok (Fin t) c \<and> 1 \<le> cand_den c \<and> cand_den c \<le> n"
    and "sorted_wrt (<) (map cand_den cs)"
    and "sds = filter single_digit cs"
proof -
  show "\<forall>c\<in>set cs. candidate_ok (Fin t) c \<and> 1 \<le> cand_den c \<and> cand_den c \<le> n"
  proof
    fix c
    assume "c \<in> set cs"
    with collect_from_empty(2) [OF assms(1)]
    have d: "cand_den c \<in> set [1..n]" and g: "generated (Fin t) (cand_den c) c" by blast+
    from d have b: "1 \<le> cand_den c \<and> cand_den c \<le> n" by (rule set_upto_D)
    with generated_ok [OF g assms(2,3)] show "candidate_ok (Fin t) c \<and> 1 \<le> cand_den c \<and> cand_den c \<le> n"
      by simp
  qed
  show "sorted_wrt (<) (map cand_den cs)"
    using collect_from_empty(3) [OF assms(1)] sorted_wrt_upto by blast
  show "sds = filter single_digit cs" by (rule collect_from_empty(1) [OF assms(1)])
qed

lemma sort_err_ranked:
  assumes "sorted_wrt (<) (map cand_den cs)" "\<forall>c\<in>set cs. candidate_ok target c"
  shows "sorted_wrt ranks_before (sort_err cs)"
  using assms candidate_ok_err by (intro sorted_sort_err) blast+

lemma take5_is_top5:
  assumes "sorted_wrt ranks_before (sort_err cs)"
  shows "is_top5 cs (take 5 (sort_err cs))"
  unfolding is_top5_def
proof (intro conjI ballI impI)
  show "length (take 5 (sort_err cs)) = min 5 (length cs)"
    by (simp add: length_sort_err min.commute)
  show "set (take 5 (sort_err cs)) \<subseteq> set cs"
    using set_take_subset [of 5 "sort_err cs"] by (simp add: set_sort_err)
  show "sorted_wrt ranks_before (take 5 (sort_err cs))"
    using assms by (rule sorted_wrt_take_local)
next
  fix c x
  assume "c \<in> set cs" "c \<notin> set (take 5 (sort_err cs))" "x \<in> set (take 5 (sort_err cs))"
  then show "ranks_before x c"
    using take_sorted_wrt_rest [OF assms, of c 5 x] by (simp add: set_sort_err)
qed

lemma hd_sorted_is_best:
  assumes "sorted_wrt ranks_before (sort_err cs)" "sort_err cs = c # rest"
  shows "is_best cs c"
proof -
  have "set cs = insert c (set rest)" using assms(2) set_sort_err [of cs] by simp
  moreover have "\<forall>x\<in>set rest. ranks_before c x" using assms by simp
  ultimately show ?thesis by (auto simp: is_best_def)
qed

lemma sorted_wrt_filter_den:
  assumes "sorted_wrt (<) (map cand_den cs)"
  shows "sorted_wrt (<) (map cand_den (filter P cs))"
  using assms by (induction cs) auto


lemma to_float_Fin_bounds: "to_float x = Fin r \<Longrightarrow> - DBL_MAX \<le> r \<and> r \<le> DBL_MAX"
  by (auto simp: to_float_def Let_def split: if_splits)

section \<open>The claims\<close>

text \<open>
  C8. \<open>approximate_top5(2, 4)\<close> and \<open>approximate_top5(1, 2)\<close> give identical results,
  under every configuration, since both divisions give the same float.
\<close>

theorem C8_same_result_2_4_and_1_2:
  "int_truediv 2 4 = int_truediv 1 2 \<and> approximate_top5 cfg 2 4 = approximate_top5 cfg 1 2"
proof -
  have h1: "int_truediv 2 4 = int_truediv 1 2" by (simp add: int_truediv_def)
  have h2: "int_truediv 4 2 = int_truediv 2 1" by (simp add: int_truediv_def)
  have h3: "((2::int) < 4) = ((1::int) < 2)" by simp
  have "approximate_top5 cfg 2 4 = approximate_top5 cfg 1 2"
    unfolding approximate_top5_def h1 h2 h3 by (rule refl)
  with h1 show ?thesis by (rule conjI)
qed

text \<open>
  C10. With \<open>SINGLE_DIGIT_THRESHOLD = 0\<close> no query is answered in the single-digit
  preferred mode: the errors are absolute values, and none is below zero.
\<close>

theorem C10_threshold_zero_never_preferred:
  assumes "SINGLE_DIGIT_THRESHOLD cfg = Fin 0"
  shows "approximate_top5 cfg a b \<noteq> Inr (MTuple c, l)"
proof
  assume r: "approximate_top5 cfg a b = Inr (MTuple c, l)"
  from approximate_top5_InrD [OF r] obtain target cs sds where
    t: "int_truediv a b = Inr target" and
    col: "collect target [1..MAX_DENOMINATOR cfg] ([], []) = Inr (cs, sds)" by blast
  have abs: "\<forall>x\<in>set sds. \<exists>v. cand_err x = float_abs v"
    using collect_from_empty(1,2) [OF col] generated_err_abs by auto
  show False
  proof (cases "cs = []")
    case True
    with r t col show False
      by (cases "a < b")
         (auto simp: approximate_top5_limit_small approximate_top5_limit_large split: sum.splits)
  next
    case False
    show False
    proof (cases "sort_err sds")
      case Nil
      with r t col False show False
        by (simp add: approximate_top5_ranked split: if_splits)
    next
      case (Cons best rest)
      then have "best \<in> set sds" using set_sort_err [of sds] by auto
      with abs obtain v where "cand_err best = float_abs v" by blast
      then have "\<not> float_lt (cand_err best) (SINGLE_DIGIT_THRESHOLD cfg)"
        using assms float_lt_abs_zero by simp
      with r t col False Cons show False
        by (simp add: approximate_top5_ranked split: if_splits)
    qed
  qed
qed

text \<open>
  C2. Whatever \<open>approximate_top5\<close> returns as its first component stands for one of
  the four mode tags.
\<close>

theorem C2_mode_is_one_of_four:
  assumes "approximate_top5 cfg a b = Inr (m, cs)"
  shows "tag_of m = Some Normal \<or> tag_of m = Some Single_digit_preferred
       \<or> tag_of m = Some Limit_small \<or> tag_of m = Some Limit_large"
proof -
  from approximate_top5_InrD [OF assms] obtain target cands sds where
    t: "int_truediv a b = Inr target" and
    col: "collect target [1..MAX_DENOMINATOR cfg] ([], []) = Inr (cands, sds)" by blast
  show ?thesis
  proof (cases "cands = []")
    case True
    with assms t col show ?thesis
      by (cases "a < b")
         (auto simp: approximate_top5_limit_small approximate_top5_limit_large tag_of_def
               split: sum.splits)
  next
    case False
    with assms t col show ?thesis
      by (auto simp: approximate_top5_ranked tag_of_def split: if_splits list.splits)
  qed
qed


theorem C10_threshold_zero_never_preferred_witness:
  "SINGLE_DIGIT_THRESHOLD (default_config\<lparr>SINGLE_DIGIT_THRESHOLD := Fin 0\<rparr>) = Fin 0 \<and>
   (\<forall>c l. approximate_top5 (default_config\<lparr>SINGLE_DIGIT_THRESHOLD := Fin 0\<rparr>) 101 200
      \<noteq> Inr (MTuple c, l))"
  using C10_threshold_zero_never_preferred
    [of "default_config\<lparr>SINGLE_DIGIT_THRESHOLD := Fin 0\<rparr>" 101 200]
  by simp

theorem C2_mode_is_one_of_four_witness:
  "approximate_top5 default_config 1 1000 = Inr (MStr ''limit_small'', [(1, 1000, Fin 0)]) \<and>
   tag_of (MStr ''limit_small'') = Some Limit_small"
  using C2_mode_is_one_of_four [OF approximate_top5_default_1_1000]
    approximate_top5_default_1_1000
  by (simp add: tag_of_def)



text \<open>
  C6 (amended). A query on positive integers either returns a result with a non-empty
  candidate list or raises \<open>OverflowError\<close>; it raises nothing else, so no division
  has a zero divisor. It returns whenever \<open>a\<close> and \<open>b\<close> are at most \<open>2^960\<close> and the
  denominator bound is at most \<open>2^63\<close>.
\<close>

theorem C6_total_within_float_range:
  assumes "0 < a" "0 < b"
  shows "(approximate_top5 cfg a b = Inl OverflowError
            \<or> (\<exists>m l. approximate_top5 cfg a b = Inr (m, l) \<and> l \<noteq> []))
       \<and> (a \<le> 2 ^ 960 \<and> b \<le> 2 ^ 960 \<and> MAX_DENOMINATOR cfg \<le> 2 ^ 63 \<longrightarrow>
            (\<exists>m l. approximate_top5 cfg a b = Inr (m, l) \<and> l \<noteq> []))"
  using approximate_top5_cases [OF assms, of cfg]
    approximate_top5_total_bounded [OF assms, of cfg]
  by blast

theorem C6_total_within_float_range_witness:
  "(0::int) < 16 \<and> (0::int) < 9 \<and> (16::int) \<le> 2 ^ 960 \<and> (9::int) \<le> 2 ^ 960 \<and>
   MAX_DENOMINATOR default_config \<le> 2 ^ 63 \<and>
   (\<exists>m l. approximate_top5 default_config 16 9 = Inr (m, l) \<and> l \<noteq> [])"
  using C6_total_within_float_range [of 16 9 default_config]
  by (simp add: MAX_DENOMINATOR_default)

text \<open>
  The claim as stated fails: on the positive integers \<open>2^1024\<close> and 1 the first division
  raises \<open>OverflowError\<close>.
\<close>

theorem C6_never_throws_counterexample:
  "(0::int) < 2 ^ 1024 \<and> (0::int) < 1 \<and>
   approximate_top5 default_config (2 ^ 1024) 1 = Inl OverflowError"
  using approximate_top5_huge_numerator [of default_config] by simp



text \<open>
  C4. When the loop has recorded candidates and the single-digit bucket is not empty,
  the answer is in the single-digit preferred mode, carrying the best-ranked
  single-digit candidate and the top five, exactly when that candidate's error is below
  the threshold and its pair is not the pair of the best-ranked candidate overall;
  otherwise the answer is in normal mode with the top five.
\<close>

theorem C4_single_digit_preference:
  assumes "0 < a" "0 < b"
    and "int_truediv a b = Inr target"
    and "collect target [1..MAX_DENOMINATOR cfg] ([], []) = Inr (candidates, sdc)"
    and "candidates \<noteq> []" "sdc \<noteq> []"
  shows "\<exists>best global_best top5.
           sdc = filter single_digit candidates \<and>
           is_best sdc best \<and> is_best candidates global_best \<and> is_top5 candidates top5 \<and>
           approximate_top5 cfg a b =
             (if float_lt (cand_err best) (SINGLE_DIGIT_THRESHOLD cfg)
                 \<and> (cand_num best, cand_den best) \<noteq> (cand_num global_best, cand_den global_best)
              then Inr (MTuple best, top5)
              else Inr (MNone, top5))"
proof -
  from target_positive [OF assms(1,2,3)] obtain x where
    x: "target = Fin x" "0 \<le> x" "x \<le> DBL_MAX" by blast
  note ok = collect_candidates_ok [OF assms(4) [unfolded x(1)] x(2,3)]
  have sc: "sorted_wrt ranks_before (sort_err candidates)"
    using ok(2) ok(1) by (intro sort_err_ranked [of candidates "Fin x"]) blast+
  have "sorted_wrt (<) (map cand_den sdc)" unfolding ok(3) using ok(2) by (rule sorted_wrt_filter_den)
  moreover have "\<forall>c\<in>set sdc. candidate_ok (Fin x) c" using ok(1) ok(3) by simp
  ultimately have ss: "sorted_wrt ranks_before (sort_err sdc)" by (rule sort_err_ranked)
  obtain best rest where b: "sort_err sdc = best # rest"
    using assms(6) sort_err_eq_Nil [of sdc] by (cases "sort_err sdc") auto
  obtain g rest' where g: "sort_err candidates = g # rest'"
    using assms(5) sort_err_eq_Nil [of candidates] by (cases "sort_err candidates") auto
  have "is_best sdc best" using ss b by (rule hd_sorted_is_best)
  moreover have "is_best candidates g" using sc g by (rule hd_sorted_is_best)
  moreover have "is_top5 candidates (take 5 (sort_err candidates))" using sc by (rule take5_is_top5)
  moreover have "approximate_top5 cfg a b =
      (if float_lt (cand_err best) (SINGLE_DIGIT_THRESHOLD cfg)
          \<and> (cand_num best, cand_den best) \<noteq> (cand_num g, cand_den g)
       then Inr (MTuple best, take 5 (sort_err candidates))
       else Inr (MNone, take 5 (sort_err candidates)))"
    using approximate_top5_ranked [OF assms(3,4,5)] assms(6) b g by simp
  ultimately show ?thesis using ok(3) by blast
qed




end
